theory Spec2Isabelle
  imports Main "HOL-Library.AList" "HOL-Library.Sublist"
begin

section \<open>Values, exceptions and the world the tap runs in\<close>

text \<open>
  The program is \<^verbatim>\<open>tap_hubspot/__init__.py\<close>. It keeps two module-level dictionaries
  (\<^verbatim>\<open>CONFIG\<close> and \<^verbatim>\<open>STATE\<close>), talks to the HubSpot API over HTTP, reads the clock
  and writes Singer messages. Every function below takes the world and returns the
  world it leaves behind, together with either the value returned or the exception
  raised.

  An instant is an integer number of milliseconds since the epoch. The program holds
  instants as \<^verbatim>\<open>datetime\<close> objects and, inside \<^verbatim>\<open>STATE\<close>, as ISO-8601 strings of one
  fixed format, which it compares as strings; on such strings that comparison is the
  comparison of the instants. The embedding keeps the instant itself, so
  \<^verbatim>\<open>utils.strptime\<close>, \<^verbatim>\<open>utils.strftime\<close>, \<^verbatim>\<open>.timestamp() * 1000\<close> and
  \<^verbatim>\<open>utcfromtimestamp(ms / 1000)\<close> are the identity on it. A JSON leaf that denotes an
  instant is the constructor \<open>JTime\<close>.
\<close>

datatype json =
    JNull
  | JBool bool
  | JInt int
  | JStr string
  | JTime int
  | JList "json list"
  | JObj "(string \<times> json) list"

datatype exn =
    RequestException "nat option"
  | SystemExit nat
  | ValueError string
  | KeyError string
  | TypeError
  | AttributeError

text \<open>
  \<open>RequestException s\<close> is any \<^verbatim>\<open>requests.exceptions.RequestException\<close>; \<open>s\<close> is the
  status code of \<^verbatim>\<open>e.response\<close>, and \<open>None\<close> when \<^verbatim>\<open>e.response is None\<close> (a failure
  below HTTP). \<open>SystemExit n\<close> is \<^verbatim>\<open>sys.exit(n)\<close>.
\<close>

type_synonym params = "(string \<times> json) list"

text \<open>A formatted URL: the text of the template and the values of its placeholders.\<close>

type_synonym url = "string \<times> params"

datatype http_call =
    HttpPost url "(string \<times> json) list"
  | HttpGet url params "(string \<times> json) list"

datatype reply = ConnectionError | Response nat json

datatype logline =
    Refreshing_token
  | Token_refreshed int
  | Info_GET url params
  | Error_GET url params nat json
  | Starting_sync
  | Sync_completed

datatype schema = Schema string "json option"

datatype message =
    SCHEMA string schema "string list"
  | RECORD string json
  | STATE_MESSAGE "(string \<times> int) list"

record config =
  cfg_access_token :: json
  cfg_token_expires :: "int option"
  cfg_redirect_uri :: json
  cfg_client_id :: json
  cfg_client_secret :: json
  cfg_refresh_token :: json
  cfg_start_date :: int
  cfg_user_agent :: "json option"

text \<open>
  \<open>net\<close> is the script of the HTTP exchanges still to come, one reply per exchange, in
  the order the program makes them; when the script is over the network is down and
  every exchange fails below HTTP. \<open>clock\<close> gives the successive readings of
  \<^verbatim>\<open>datetime.datetime.utcnow()\<close>, \<open>ticks\<close> counts the readings taken. \<open>sent\<close>, \<open>slept\<close>,
  \<open>logged\<close> and \<open>out\<close> are what the program has done so far: the exchanges it started,
  the waits between retries, the log lines and the Singer messages.
\<close>

record world =
  CONFIG :: config
  STATE :: "(string \<times> int) list"
  net :: "reply list"
  clock :: "nat \<Rightarrow> int"
  ticks :: nat
  sent :: "http_call list"
  slept :: "nat list"
  logged :: "logline list"
  out :: "message list"

type_synonym 'a io = "world \<Rightarrow> (exn + 'a) \<times> world"

definition ret :: "'a \<Rightarrow> 'a io" where
  "ret x w = (Inr x, w)"

definition raise :: "exn \<Rightarrow> 'a io" where
  "raise e w = (Inl e, w)"

definition lift :: "exn + 'a \<Rightarrow> 'a io" where
  "lift r w = (r, w)"

definition bnd :: "'a io \<Rightarrow> ('a \<Rightarrow> 'b io) \<Rightarrow> 'b io" where
  "bnd m f w = (case m w of (Inl e, w') \<Rightarrow> (Inl e, w') | (Inr x, w') \<Rightarrow> f x w')"

definition pure_bnd :: "exn + 'a \<Rightarrow> ('a \<Rightarrow> exn + 'b) \<Rightarrow> exn + 'b" where
  "pure_bnd r f = (case r of Inl e \<Rightarrow> Inl e | Inr x \<Rightarrow> f x)"

subsection \<open>Python's operations on decoded JSON\<close>

text \<open>\<^verbatim>\<open>d[k]\<close> with a string key.\<close>

fun getitem :: "json \<Rightarrow> string \<Rightarrow> exn + json" where
  "getitem (JObj kvs) k = (case map_of kvs k of None \<Rightarrow> Inl (KeyError k) | Some v \<Rightarrow> Inr v)"
| "getitem _ k = Inl TypeError"

text \<open>\<^verbatim>\<open>d.get(k, False)\<close>.\<close>

fun dict_get :: "json \<Rightarrow> string \<Rightarrow> exn + json" where
  "dict_get (JObj kvs) k = (case map_of kvs k of None \<Rightarrow> Inr (JBool False) | Some v \<Rightarrow> Inr v)"
| "dict_get _ k = Inl AttributeError"

text \<open>\<^verbatim>\<open>d.items()\<close>.\<close>

fun dict_items :: "json \<Rightarrow> exn + (string \<times> json) list" where
  "dict_items (JObj kvs) = Inr kvs"
| "dict_items _ = Inl AttributeError"

text \<open>\<^verbatim>\<open>k in x\<close> with a string \<open>k\<close>.\<close>

fun contains :: "json \<Rightarrow> string \<Rightarrow> exn + bool" where
  "contains (JObj kvs) k = Inr (k \<in> set (map fst kvs))"
| "contains (JList xs) k = Inr (JStr k \<in> set xs)"
| "contains (JStr s) k = Inr (sublist k s)"
| "contains _ k = Inl TypeError"

text \<open>\<^verbatim>\<open>for row in x\<close>: the elements a Python loop ranges over.\<close>

fun py_iter :: "json \<Rightarrow> exn + json list" where
  "py_iter (JList xs) = Inr xs"
| "py_iter (JObj kvs) = Inr (map (\<lambda>kv. JStr (fst kv)) kvs)"
| "py_iter (JStr s) = Inr (map (\<lambda>c. JStr [c]) s)"
| "py_iter _ = Inl TypeError"

text \<open>Truth value of an object, as \<^verbatim>\<open>if x\<close> and \<^verbatim>\<open>not x\<close> take it.\<close>

fun truthy :: "json \<Rightarrow> bool" where
  "truthy JNull = False"
| "truthy (JBool b) = b"
| "truthy (JInt n) = (n \<noteq> 0)"
| "truthy (JStr s) = (s \<noteq> [])"
| "truthy (JTime t) = True"
| "truthy (JList xs) = (xs \<noteq> [])"
| "truthy (JObj kvs) = (kvs \<noteq> [])"

text \<open>
  \<^verbatim>\<open>utils.strptime(v)\<close>, also after \<^verbatim>\<open>_transform_datetime\<close>: the instant a value
  denotes.
\<close>

fun strptime :: "json \<Rightarrow> exn + int" where
  "strptime (JTime t) = Inr t"
| "strptime (JStr s) = Inl (ValueError ''time data does not match format'')"
| "strptime _ = Inl TypeError"

text \<open>
  The value handed to \<^verbatim>\<open>utils.update_state\<close> or compared with a start position by
  \<^verbatim>\<open>>=\<close>: \<^verbatim>\<open>None\<close> or an instant; anything else does not compare with the stored
  text.
\<close>

fun dtime_of :: "json \<Rightarrow> exn + int option" where
  "dtime_of JNull = Inr None"
| "dtime_of (JTime t) = Inr (Some t)"
| "dtime_of _ = Inl TypeError"

subsection \<open>Clock, log, output and the network\<close>

definition utcnow :: "int io" where
  "utcnow w = (Inr (clock w (ticks w)), w\<lparr>ticks := Suc (ticks w)\<rparr>)"

definition logger :: "logline \<Rightarrow> unit io" where
  "logger l w = (Inr (), w\<lparr>logged := logged w @ [l]\<rparr>)"

definition sleep :: "nat \<Rightarrow> world \<Rightarrow> world" where
  "sleep seconds w = w\<lparr>slept := slept w @ [seconds]\<rparr>"

definition write_schema :: "string \<Rightarrow> schema \<Rightarrow> string list \<Rightarrow> unit io" where
  "write_schema stream sch key_properties w =
     (Inr (), w\<lparr>out := out w @ [SCHEMA stream sch key_properties]\<rparr>)"

definition write_record :: "string \<Rightarrow> json \<Rightarrow> unit io" where
  "write_record stream rec w = (Inr (), w\<lparr>out := out w @ [RECORD stream rec]\<rparr>)"

definition write_state :: "unit io" where
  "write_state w = (Inr (), w\<lparr>out := out w @ [STATE_MESSAGE (STATE w)]\<rparr>)"

text \<open>
  One HTTP exchange (\<^verbatim>\<open>requests.post\<close>, \<^verbatim>\<open>session.send\<close>): it takes the next reply of
  the script and either returns the response or raises below HTTP.
\<close>

definition exchange :: "http_call \<Rightarrow> (nat \<times> json) io" where
  "exchange c w =
     (case net w of
        [] \<Rightarrow> (Inl (RequestException None), w\<lparr>sent := sent w @ [c]\<rparr>)
      | ConnectionError # rs \<Rightarrow> (Inl (RequestException None), w\<lparr>net := rs, sent := sent w @ [c]\<rparr>)
      | Response status body # rs \<Rightarrow> (Inr (status, body), w\<lparr>net := rs, sent := sent w @ [c]\<rparr>))"

text \<open>\<^verbatim>\<open>resp.raise_for_status()\<close> of the requests library.\<close>

definition raise_for_status :: "nat \<times> json \<Rightarrow> exn + unit" where
  "raise_for_status resp =
     (if 400 \<le> fst resp \<and> fst resp < 600 then Inl (RequestException (Some (fst resp))) else Inr ())"

section \<open>Start positions, URLs and schemas\<close>


definition BASE_URL :: string where
  "BASE_URL = ''https://api.hubapi.com''"

definition endpoints :: "(string \<times> string) list" where
  "endpoints =
     [(''contacts_properties'', ''/properties/v1/contacts/properties''),
      (''contacts_all'', ''/contacts/v1/lists/all/contacts/all''),
      (''contacts_recent'', ''/contacts/v1/lists/recently_updated/contacts/recent''),
      (''contacts_detail'', ''/contacts/v1/contact/vids/batch/''),
      (''companies_properties'', ''/companies/v2/properties''),
      (''companies_all'', ''/companies/v2/companies/paged''),
      (''companies_recent'', ''/companies/v2/companies/recent/modified''),
      (''companies_detail'', ''/companies/v2/companies/{company_id}''),
      (''deals_properties'', ''/companies/v2/properties''),
      (''deals_all'', ''/deals/v1/deal/paged''),
      (''deals_recent'', ''/deals/v1/deal/recent/modified''),
      (''deals_detail'', ''/deals/v1/deal/{deal_id}''),
      (''campaigns_all'', ''/email/public/v1/campaigns/by-id''),
      (''campaigns_detail'', ''/email/public/v1/campaigns/{campaign_id}''),
      (''subscription_changes'', ''/email/public/v1/subscriptions/timeline''),
      (''email_events'', ''/email/public/v1/events''),
      (''contact_lists'', ''/contacts/v1/lists''),
      (''forms'', ''/forms/v2/forms''),
      (''workflows'', ''/automation/v3/workflows''),
      (''keywords'', ''/keywords/v1/keywords''),
      (''owners'', ''/owners/v2/owners'')]"

definition get_start :: "string \<Rightarrow> int io" where
  "get_start key w =
     (let w1 = (if map_of (STATE w) key = None
                then w\<lparr>STATE := AList.update key (cfg_start_date (CONFIG w)) (STATE w)\<rparr>
                else w)
      in case map_of (STATE w1) key of
           None \<Rightarrow> (Inl (KeyError key), w1)
         | Some v \<Rightarrow> (Inr v, w1))"

definition get_url :: "string \<Rightarrow> params \<Rightarrow> exn + url" where
  "get_url endpoint kwargs =
     (case map_of endpoints endpoint of
        None \<Rightarrow> Inl (ValueError (''Invalid endpoint '' @ endpoint))
      | Some template \<Rightarrow> Inr (BASE_URL @ template, kwargs))"

definition get_field_type_schema :: "json \<Rightarrow> json" where
  "get_field_type_schema field_type =
     (if field_type = JStr ''bool'' then JObj [(''type'', JList [JStr ''null'', JStr ''boolean''])]
      else if field_type = JStr ''datetime'' then JObj [(''type'', JList [JStr ''null'', JStr ''string''])]
      else if field_type = JStr ''number''
        then JObj [(''type'', JList [JStr ''null'', JStr ''number'', JStr ''string''])]
      else JObj [(''type'', JList [JStr ''null'', JStr ''string''])])"

definition get_field_schema :: "json \<Rightarrow> bool \<Rightarrow> json" where
  "get_field_schema field_type extras =
     (if extras
      then JObj [(''type'', JStr ''object''),
                 (''properties'', JObj
                    [(''value'', get_field_type_schema field_type),
                     (''timestamp'', get_field_type_schema (JStr ''datetime'')),
                     (''source'', get_field_type_schema (JStr ''string'')),
                     (''sourceId'', get_field_type_schema (JStr ''string''))])]
      else JObj [(''type'', JStr ''object''),
                 (''properties'', JObj [(''value'', get_field_type_schema field_type)])])"

text \<open>
  The dictionary comprehension of \<^verbatim>\<open>parse_custom_schema\<close>, one field after the other;
  a field name that is not a string cannot be a key of the JSON object built here.
\<close>

fun custom_fields :: "string \<Rightarrow> json list \<Rightarrow> params \<Rightarrow> exn + params" where
  "custom_fields entity_name [] acc = Inr acc"
| "custom_fields entity_name (field # rest) acc =
     pure_bnd (getitem field ''name'') (\<lambda>name.
     pure_bnd (getitem field ''type'') (\<lambda>ty.
       case name of
         JStr n \<Rightarrow> custom_fields entity_name rest
                     (AList.update n (get_field_schema ty (entity_name \<noteq> ''contacts'')) acc)
       | _ \<Rightarrow> Inl TypeError))"

definition parse_custom_schema :: "string \<Rightarrow> json \<Rightarrow> exn + json" where
  "parse_custom_schema entity_name data =
     pure_bnd (py_iter data) (\<lambda>rows.
     pure_bnd (custom_fields entity_name rows []) (\<lambda>kvs. Inr (JObj kvs)))"

section \<open>Token refresh and the retried request\<close>

text \<open>An assignment \<^verbatim>\<open>CONFIG[k] = v\<close>.\<close>

definition set_config :: "(config \<Rightarrow> config) \<Rightarrow> unit io" where
  "set_config f w = (Inr (), w\<lparr>CONFIG := f (CONFIG w)\<rparr>)"

text \<open>The number of seconds \<^verbatim>\<open>auth['expires_in'] - 600\<close> needs.\<close>

fun as_int :: "json \<Rightarrow> exn + int" where
  "as_int (JInt n) = Inr n"
| "as_int _ = Inl TypeError"

text \<open>A read of the dictionary \<^verbatim>\<open>CONFIG\<close>.\<close>

definition get_config :: "config io" where
  "get_config w = (Inr (CONFIG w), w)"

definition refresh_token :: "unit io" where
  "refresh_token =
     bnd get_config (\<lambda>c.
     let payload =
           [(''grant_type'', JStr ''refresh_token''),
            (''redirect_uri'', cfg_redirect_uri c),
            (''refresh_token'', cfg_refresh_token c),
            (''client_id'', cfg_client_id c),
            (''client_secret'', cfg_client_secret c)]
     in bnd (logger Refreshing_token) (\<lambda>_.
        bnd (exchange (HttpPost (BASE_URL @ ''/oauth/v1/token'', []) payload)) (\<lambda>resp.
        bnd (lift (raise_for_status resp)) (\<lambda>_.
        bnd (lift (getitem (snd resp) ''access_token'')) (\<lambda>a.
        bnd (set_config (\<lambda>c. c\<lparr>cfg_access_token := a\<rparr>)) (\<lambda>_.
        bnd (lift (getitem (snd resp) ''refresh_token'')) (\<lambda>r.
        bnd (set_config (\<lambda>c. c\<lparr>cfg_refresh_token := r\<rparr>)) (\<lambda>_.
        bnd utcnow (\<lambda>now.
        bnd (lift (getitem (snd resp) ''expires_in'')) (\<lambda>expires_in.
        bnd (lift (as_int expires_in)) (\<lambda>secs.
        bnd (set_config (\<lambda>c. c\<lparr>cfg_token_expires := Some (now + (secs - 600) * 1000)\<rparr>)) (\<lambda>_.
        logger (Token_refreshed (now + (secs - 600) * 1000))))))))))))))"

text \<open>
  One execution of the body of \<^verbatim>\<open>request\<close>, in its two parts: the \<^verbatim>\<open>if\<close> statement
  that refreshes the token, and the rest, which sends the GET and looks at the status.
  Python's \<^verbatim>\<open>or\<close> reads the clock only when an expiry is held.
\<close>

definition token_check :: "unit io" where
  "token_check =
     bnd get_config (\<lambda>c.
       case cfg_token_expires c of
         None \<Rightarrow> refresh_token
       | Some expires \<Rightarrow> bnd utcnow (\<lambda>now. if expires < now then refresh_token else ret ()))"

definition send_get :: "url \<Rightarrow> params \<Rightarrow> (nat \<times> json) io" where
  "send_get u ps =
     bnd get_config (\<lambda>c.
     let headers =
           (''Authorization'', cfg_access_token c) #
           (case cfg_user_agent c of None \<Rightarrow> [] | Some ua \<Rightarrow> [(''User-Agent'', ua)])
     in bnd (logger (Info_GET u ps)) (\<lambda>_.
        bnd (exchange (HttpGet u ps headers)) (\<lambda>resp.
          if fst resp \<ge> 400
          then bnd (logger (Error_GET u ps (fst resp) (snd resp))) (\<lambda>_. raise (SystemExit 1))
          else ret resp)))"

definition request_body :: "url \<Rightarrow> params \<Rightarrow> (nat \<times> json) io" where
  "request_body u ps = bnd token_check (\<lambda>_. send_get u ps)"

text \<open>
  The decorator \<^verbatim>\<open>backoff.on_exception(backoff.expo, RequestException, max_tries=5,
  giveup=..., factor=2)\<close> of the backoff library: the target is called again after an
  exception of the given class, unless \<^verbatim>\<open>giveup\<close> holds of it or \<^verbatim>\<open>max_tries\<close> calls
  have been made; any other exception passes through. Before the call after the
  \<open>n\<close>-th failure it waits; the wait generator \<^verbatim>\<open>expo\<close> gives \<open>factor * 2 ^ n\<close>
  seconds, which \<open>slept\<close> records (the library then draws the actual pause at random
  below that value).
\<close>

definition expo :: "nat \<Rightarrow> nat \<Rightarrow> nat" where
  "expo factor n = factor * 2 ^ n"

fun is_RequestException :: "exn \<Rightarrow> bool" where
  "is_RequestException (RequestException s) = True"
| "is_RequestException _ = False"

fun giveup :: "exn \<Rightarrow> bool" where
  "giveup (RequestException (Some status)) = (400 \<le> status \<and> status < 500)"
| "giveup _ = False"

function on_exception :: "nat \<Rightarrow> nat \<Rightarrow> nat \<Rightarrow> 'a io \<Rightarrow> 'a io" where
  "on_exception max_tries factor tries target w =
     (case target w of
        (Inr r, w') \<Rightarrow> (Inr r, w')
      | (Inl e, w') \<Rightarrow>
          if is_RequestException e \<and> \<not> giveup e \<and> Suc tries < max_tries
          then on_exception max_tries factor (Suc tries) target (sleep (expo factor tries) w')
          else (Inl e, w'))"
  by pat_completeness auto
termination
  by (relation "measure (\<lambda>(max_tries, factor, tries, target, w). max_tries - tries)") auto

declare on_exception.simps [simp del]

definition request :: "url \<Rightarrow> params \<Rightarrow> (nat \<times> json) io" where
  "request u ps = on_exception 5 2 0 (request_body u ps)"

section \<open>What a computation leaves unchanged\<close>

text \<open>
  \<open>preserves R m\<close>: the world after \<open>m\<close> is related by \<open>R\<close> to the world before it,
  whether \<open>m\<close> returns or raises.
\<close>

definition preserves :: "(world \<Rightarrow> world \<Rightarrow> bool) \<Rightarrow> 'a io \<Rightarrow> bool" where
  "preserves R m \<longleftrightarrow> (\<forall>w. R w (snd (m w)))"

lemma preservesI: "(\<And>w. R w (snd (m w))) \<Longrightarrow> preserves R m"
  by (simp add: preserves_def)

lemma preservesD: "preserves R m \<Longrightarrow> R w (snd (m w))"
  by (simp add: preserves_def)

lemma preserves_ret: "reflp R \<Longrightarrow> preserves R (ret x)"
  by (simp add: preserves_def ret_def reflpD)

lemma preserves_raise: "reflp R \<Longrightarrow> preserves R (raise e)"
  by (simp add: preserves_def raise_def reflpD)

lemma preserves_lift: "reflp R \<Longrightarrow> preserves R (lift r)"
  by (simp add: preserves_def lift_def reflpD)

lemma preserves_bnd:
  assumes "transp R" and "preserves R m" and "\<And>x. preserves R (f x)"
  shows "preserves R (bnd m f)"
proof (rule preservesI)
  fix w
  show "R w (snd (bnd m f w))"
  proof (cases "m w")
    case (Pair r w')
    have step: "R w w'"
      using preservesD [OF assms(2), of w] Pair by simp
    show ?thesis
    proof (cases r)
      case (Inl e)
      with Pair step show ?thesis by (simp add: bnd_def)
    next
      case (Inr x)
      have "R w' (snd (f x w'))"
        using preservesD [OF assms(3)] .
      with step have "R w (snd (f x w'))"
        using assms(1) by (blast dest: transpD)
      with Pair Inr show ?thesis by (simp add: bnd_def)
    qed
  qed
qed

lemma preserves_if:
  "preserves R m \<Longrightarrow> preserves R n \<Longrightarrow> preserves R (if b then m else n)"
  by simp

lemma preserves_option:
  "preserves R m \<Longrightarrow> (\<And>x. preserves R (f x)) \<Longrightarrow>
   preserves R (case v of None \<Rightarrow> m | Some x \<Rightarrow> f x)"
  by (cases v) simp_all

text \<open>The script of replies never grows.\<close>

definition net_le :: "world \<Rightarrow> world \<Rightarrow> bool" where
  "net_le w w' \<longleftrightarrow> length (net w') \<le> length (net w)"

lemma reflp_net_le: "reflp net_le"
  by (simp add: reflp_def net_le_def)

lemma transp_net_le: "transp net_le"
  by (auto simp: transp_def net_le_def)

text \<open>The watermarks and the messages written are untouched.\<close>

definition same_data :: "world \<Rightarrow> world \<Rightarrow> bool" where
  "same_data w w' \<longleftrightarrow> STATE w' = STATE w \<and> out w' = out w"

lemma reflp_same_data: "reflp same_data"
  by (simp add: reflp_def same_data_def)

lemma transp_same_data: "transp same_data"
  by (auto simp: transp_def same_data_def)

text \<open>
  A relation that no change to \<open>CONFIG\<close>, the script, the clock or the records of
  exchanges, waits and log lines can break.
\<close>

definition plumbing :: "(world \<Rightarrow> world \<Rightarrow> bool) \<Rightarrow> bool" where
  "plumbing R \<longleftrightarrow> reflp R \<and> transp R \<and>
     (\<forall>w f. R w (w\<lparr>CONFIG := f\<rparr>)) \<and>
     (\<forall>w t. R w (w\<lparr>ticks := t\<rparr>)) \<and>
     (\<forall>w l. R w (w\<lparr>logged := l\<rparr>)) \<and>
     (\<forall>w l. R w (w\<lparr>slept := l\<rparr>)) \<and>
     (\<forall>w c. R w (w\<lparr>sent := sent w @ [c]\<rparr>)) \<and>
     (\<forall>w c. net w \<noteq> [] \<longrightarrow> R w (w\<lparr>net := tl (net w), sent := sent w @ [c]\<rparr>))"

lemma plumbing_net_le: "plumbing net_le"
  by (simp add: plumbing_def reflp_net_le transp_net_le) (simp add: net_le_def)

lemma plumbing_same_data: "plumbing same_data"
  by (simp add: plumbing_def reflp_same_data transp_same_data) (simp add: same_data_def)

lemma plumbing_reflp: "plumbing R \<Longrightarrow> reflp R"
  by (simp add: plumbing_def)

lemma plumbing_transp: "plumbing R \<Longrightarrow> transp R"
  by (simp add: plumbing_def)

lemma preserves_logger: "plumbing R \<Longrightarrow> preserves R (logger l)"
  by (simp add: preserves_def logger_def plumbing_def)

lemma preserves_utcnow: "plumbing R \<Longrightarrow> preserves R utcnow"
  by (simp add: preserves_def utcnow_def plumbing_def)

lemma preserves_set_config: "plumbing R \<Longrightarrow> preserves R (set_config f)"
  by (simp add: preserves_def set_config_def plumbing_def)

lemma preserves_get_config: "plumbing R \<Longrightarrow> preserves R get_config"
  by (simp add: preserves_def get_config_def plumbing_def reflpD)

lemma preserves_exchange:
  assumes "plumbing R"
  shows "preserves R (exchange c)"
proof (rule preservesI)
  fix w
  show "R w (snd (exchange c w))"
  proof (cases "net w")
    case Nil
    then show ?thesis using assms by (simp add: exchange_def plumbing_def)
  next
    case (Cons r rs)
    have "\<forall>w c. net w \<noteq> [] \<longrightarrow> R w (w\<lparr>net := tl (net w), sent := sent w @ [c]\<rparr>)"
      using assms by (simp add: plumbing_def)
    then have "net w \<noteq> [] \<longrightarrow> R w (w\<lparr>net := tl (net w), sent := sent w @ [c]\<rparr>)"
      by blast
    with Cons have "R w (w\<lparr>net := rs, sent := sent w @ [c]\<rparr>)"
      by simp
    with Cons show ?thesis by (cases r) (simp_all add: exchange_def)
  qed
qed

lemmas preserves_plumbing =
  preserves_ret preserves_raise preserves_lift preserves_logger preserves_utcnow
  preserves_set_config preserves_get_config preserves_exchange plumbing_reflp plumbing_transp

lemma preserves_refresh_token:
  assumes "plumbing R"
  shows "preserves R refresh_token"
  unfolding refresh_token_def Let_def
  by (intro preserves_bnd preserves_plumbing assms)

lemma preserves_token_check:
  assumes "plumbing R"
  shows "preserves R token_check"
  unfolding token_check_def
  by (intro preserves_bnd preserves_option preserves_if preserves_plumbing
        preserves_refresh_token assms)

lemma preserves_send_get:
  assumes "plumbing R"
  shows "preserves R (send_get u ps)"
  unfolding send_get_def Let_def
  by (intro preserves_bnd preserves_if preserves_plumbing assms)

lemma preserves_request_body:
  assumes "plumbing R"
  shows "preserves R (request_body u ps)"
  unfolding request_body_def
  by (intro preserves_bnd preserves_token_check preserves_send_get preserves_plumbing assms)

lemma bnd_InrE:
  assumes "bnd m f w = (Inr r, w')"
  obtains x w1 where "m w = (Inr x, w1)" and "f x w1 = (Inr r, w')"
  using assms by (auto simp: bnd_def split: prod.splits sum.splits)

lemma bnd_Inr_iff:
  "bnd m f w = (Inr r, w') \<longleftrightarrow> (\<exists>x w1. m w = (Inr x, w1) \<and> f x w1 = (Inr r, w'))"
  by (auto simp: bnd_def split: prod.splits sum.splits)

lemma on_exception_rel:
  assumes "plumbing R"
  shows "preserves R target \<Longrightarrow> R w (snd (on_exception max_tries factor tries target w))"
proof (induction max_tries factor tries target w rule: on_exception.induct)
  case (1 max_tries factor tries target w)
  note unfold = on_exception.simps [of max_tries factor tries target w]
  obtain r w' where tw: "target w = (r, w')"
    by (cases "target w")
  have step: "R w w'"
    using preservesD [OF "1.prems", of w] tw by simp
  show ?case
  proof (cases r)
    case (Inr x)
    with tw step show ?thesis by (simp add: unfold)
  next
    case (Inl e)
    show ?thesis
    proof (cases "is_RequestException e \<and> \<not> giveup e \<and> Suc tries < max_tries")
      case False
      with tw Inl step show ?thesis by (auto simp: unfold)
    next
      case True
      have "R w' (sleep (expo factor tries) w')"
        using assms by (simp add: sleep_def plumbing_def)
      moreover have "R (sleep (expo factor tries) w')
          (snd (on_exception max_tries factor (Suc tries) target (sleep (expo factor tries) w')))"
        using "1.IH" [OF tw [symmetric] Inl True "1.prems"] .
      ultimately have "R w
          (snd (on_exception max_tries factor (Suc tries) target (sleep (expo factor tries) w')))"
        using step plumbing_transp [OF assms] by (blast dest: transpD)
      with tw Inl True show ?thesis by (simp add: unfold)
    qed
  qed
qed

lemma preserves_on_exception:
  "plumbing R \<Longrightarrow> preserves R target \<Longrightarrow>
   preserves R (on_exception max_tries factor tries target)"
  by (rule preservesI) (rule on_exception_rel)

lemma preserves_request: "plumbing R \<Longrightarrow> preserves R (request u ps)"
  unfolding request_def by (intro preserves_on_exception preserves_request_body)

lemma exchange_consumes:
  "exchange c w = (Inr r, w') \<Longrightarrow> length (net w') < length (net w)"
  by (auto simp: exchange_def split: list.splits reply.splits)

lemma send_get_consumes:
  assumes "send_get u ps w = (Inr r, w')"
  shows "length (net w') < length (net w)"
proof -
  from assms obtain h w1 where ex: "exchange h w1 = (Inr r, w')" and n1: "net w1 = net w"
    by (auto simp: send_get_def bnd_Inr_iff get_config_def logger_def Let_def ret_def raise_def
          split: if_splits)
  from exchange_consumes [OF ex] n1 show ?thesis by simp
qed

lemma request_body_consumes:
  assumes "request_body u ps w = (Inr r, w')"
  shows "length (net w') < length (net w)"
proof -
  from assms obtain x w1 where a: "token_check w = (Inr x, w1)"
    and b: "send_get u ps w1 = (Inr r, w')"
    unfolding request_body_def by (erule bnd_InrE)
  from preservesD [OF preserves_token_check [OF plumbing_net_le], of w] a
  have "length (net w1) \<le> length (net w)"
    by (simp add: net_le_def)
  with send_get_consumes [OF b] show ?thesis by simp
qed

lemma on_exception_consumes:
  "on_exception max_tries factor tries target w = (Inr r, w') \<Longrightarrow>
   (\<And>w r w'. target w = (Inr r, w') \<Longrightarrow> length (net w') < length (net w)) \<Longrightarrow>
   preserves net_le target \<Longrightarrow>
   length (net w') < length (net w)"
proof (induction max_tries factor tries target w rule: on_exception.induct)
  case (1 max_tries factor tries target w)
  note unfold = on_exception.simps [of max_tries factor tries target w]
  obtain r0 w0 where tw: "target w = (r0, w0)"
    by (cases "target w")
  show ?case
  proof (cases r0)
    case (Inr x)
    with tw "1.prems"(1) have "target w = (Inr r, w')"
      by (simp add: unfold)
    then show ?thesis by (rule "1.prems"(2))
  next
    case (Inl e)
    show ?thesis
    proof (cases "is_RequestException e \<and> \<not> giveup e \<and> Suc tries < max_tries")
      case False
      with tw Inl "1.prems"(1) show ?thesis by (auto simp: unfold)
    next
      case True
      with tw Inl "1.prems"(1)
      have "on_exception max_tries factor (Suc tries) target (sleep (expo factor tries) w0) = (Inr r, w')"
        by (simp add: unfold)
      from "1.IH" [OF tw [symmetric] Inl True this "1.prems"(2,3)]
      have "length (net w') < length (net (sleep (expo factor tries) w0))" .
      moreover have "length (net w0) \<le> length (net w)"
        using preservesD [OF "1.prems"(3), of w] tw by (simp add: net_le_def)
      ultimately show ?thesis by (simp add: sleep_def)
    qed
  qed
qed

lemma request_consumes:
  "request u ps w = (Inr r, w') \<Longrightarrow> length (net w') < length (net w)"
  unfolding request_def
  by (erule on_exception_consumes)
     (auto intro: request_body_consumes preserves_request_body plumbing_net_le)

section \<open>The pagination generator\<close>

text \<open>
  \<^verbatim>\<open>gen_request\<close> is a Python generator: nothing of its body runs before the consumer
  asks for the first row, and the consumer's loop body runs between two rows. The
  embedding keeps the generator as a value (its arguments, the dictionary \<^verbatim>\<open>params\<close> it
  updates, and the point its body has reached); \<open>gen_next\<close> runs the body up to the
  next \<^verbatim>\<open>yield\<close> and returns the row with the suspended generator, or \<open>None\<close> when
  the body ends.

  An offset argument is a single name or a list of names (\<^verbatim>\<open>isinstance(x, list)\<close>).
\<close>

datatype offsets = Name string | Names "string list"

fun as_list :: "offsets \<Rightarrow> string list" where
  "as_list (Name k) = [k]"
| "as_list (Names ks) = ks"

text \<open>
  \<open>Created\<close>: the body has not started. \<open>Fetching\<close>: at the head of
  \<^verbatim>\<open>while True\<close>. \<open>Rows rows data\<close>: inside \<^verbatim>\<open>for row in data[path]\<close> with \<open>rows\<close>
  still to yield. \<open>Last_rows rows\<close>: inside \<^verbatim>\<open>for row in data\<close> of the branch without
  a path.
\<close>

datatype gen_pc = Created | Fetching | Rows "json list" json | Last_rows "json list"

record gen =
  g_url :: url
  g_params :: params
  g_path :: string
  g_more_key :: string
  g_offset_keys :: offsets
  g_offset_targets :: offsets
  g_pc :: gen_pc

definition gen_request ::
  "url \<Rightarrow> params \<Rightarrow> string \<Rightarrow> string \<Rightarrow> offsets \<Rightarrow> offsets \<Rightarrow> gen" where
  "gen_request u ps path more_key offset_keys offset_targets =
     \<lparr>g_url = u, g_params = ps, g_path = path, g_more_key = more_key,
      g_offset_keys = offset_keys, g_offset_targets = offset_targets, g_pc = Created\<rparr>"

text \<open>\<^verbatim>\<open>for key, target in zip(offset_keys, offset_targets): params[target] = data[key]\<close>.\<close>

fun copy_offsets :: "json \<Rightarrow> (string \<times> string) list \<Rightarrow> params \<Rightarrow> exn + params" where
  "copy_offsets data [] ps = Inr ps"
| "copy_offsets data (kt # kts) ps =
     pure_bnd (getitem data (fst kt)) (\<lambda>v. copy_offsets data kts (AList.update (snd kt) v ps))"

fun pc_rank :: "gen_pc \<Rightarrow> nat" where
  "pc_rank Created = 2"
| "pc_rank Fetching = 1"
| "pc_rank (Rows rows data) = 2"
| "pc_rank (Last_rows rows) = 0"

function gen_next :: "gen \<Rightarrow> (json \<times> gen) option io" where
  "gen_next g w =
     (case g_pc g of
        Created \<Rightarrow>
          if length (as_list (g_offset_keys g)) \<noteq> length (as_list (g_offset_targets g))
          then (Inl (ValueError ''Number of offset_keys must match number of offset_targets''), w)
          else gen_next (g\<lparr>g_pc := Fetching\<rparr>) w
      | Fetching \<Rightarrow>
          (case request (g_url g) (g_params g) w of
             (Inl e, w') \<Rightarrow> (Inl e, w')
           | (Inr resp, w') \<Rightarrow>
               if g_path g \<noteq> []
               then (case pure_bnd (getitem (snd resp) (g_path g)) py_iter of
                       Inl e \<Rightarrow> (Inl e, w')
                     | Inr rows \<Rightarrow> gen_next (g\<lparr>g_pc := Rows rows (snd resp)\<rparr>) w')
               else (case py_iter (snd resp) of
                       Inl e \<Rightarrow> (Inl e, w')
                     | Inr rows \<Rightarrow> gen_next (g\<lparr>g_pc := Last_rows rows\<rparr>) w'))
      | Rows rows data \<Rightarrow>
          (case rows of
             row # rest \<Rightarrow> (Inr (Some (row, g\<lparr>g_pc := Rows rest data\<rparr>)), w)
           | [] \<Rightarrow>
               (case dict_get data (g_more_key g) of
                  Inl e \<Rightarrow> (Inl e, w)
                | Inr flag \<Rightarrow>
                    if \<not> truthy flag then (Inr None, w)
                    else (case copy_offsets data
                                 (zip (as_list (g_offset_keys g)) (as_list (g_offset_targets g)))
                                 (g_params g) of
                            Inl e \<Rightarrow> (Inl e, w)
                          | Inr ps \<Rightarrow> gen_next (g\<lparr>g_params := ps, g_pc := Fetching\<rparr>) w)))
      | Last_rows rows \<Rightarrow>
          (case rows of
             row # rest \<Rightarrow> (Inr (Some (row, g\<lparr>g_pc := Last_rows rest\<rparr>)), w)
           | [] \<Rightarrow> (Inr None, w)))"
  by pat_completeness auto
termination
proof (relation "measures [\<lambda>(g, w). length (net w), \<lambda>(g, w). pc_rank (g_pc g)]")
  show "wf (measures [\<lambda>(g, w). length (net w), \<lambda>(g, w). pc_rank (g_pc g)])"
    by simp
qed (auto dest: request_consumes [OF sym])

declare gen_next.simps [simp del]

section \<open>Properties of the requester\<close>

text \<open>Worlds used to run the program on concrete inputs.\<close>

definition example_config :: config where
  "example_config =
     \<lparr>cfg_access_token = JStr ''token-1'', cfg_token_expires = Some 1000,
      cfg_redirect_uri = JStr ''https://example.org/cb'', cfg_client_id = JStr ''id'',
      cfg_client_secret = JStr ''secret'', cfg_refresh_token = JStr ''refresh-1'',
      cfg_start_date = 0, cfg_user_agent = None\<rparr>"

text \<open>
  The clock stands at \<open>now\<close>; the token held expires at instant 1000; no watermark is
  stored yet.
\<close>

definition example_world :: "int \<Rightarrow> reply list \<Rightarrow> world" where
  "example_world now replies =
     \<lparr>CONFIG = example_config, STATE = [], net = replies, clock = (\<lambda>_. now), ticks = 0,
      sent = [], slept = [], logged = [], out = []\<rparr>"

lemmas io_defs =
  bnd_def ret_def raise_def lift_def logger_def utcnow_def get_config_def set_config_def
  exchange_def

lemma send_get_error_status:
  assumes "net w = Response status body # rs" and "400 \<le> status"
  shows "send_get u ps w =
           (Inl (SystemExit 1),
            w\<lparr>net := rs,
              sent := sent w @
                [HttpGet u ps
                   ((''Authorization'', cfg_access_token (CONFIG w)) #
                    (case cfg_user_agent (CONFIG w) of None \<Rightarrow> [] | Some ua \<Rightarrow> [(''User-Agent'', ua)]))],
              logged := logged w @ [Info_GET u ps, Error_GET u ps status body]\<rparr>)"
  using assms by (simp add: send_get_def io_defs Let_def)

lemma on_exception_passes:
  assumes "target w = (Inl e, w')" and "\<not> is_RequestException e \<or> giveup e"
  shows "on_exception max_tries factor tries target w = (Inl e, w')"
  using assms by (subst on_exception.simps) auto

text \<open>
  C5. A response to the GET with a status in [400, 500) ends the call at once: the
  failing URL and the status are logged, \<^verbatim>\<open>sys.exit(1)\<close> is raised, and the retry
  decorator passes it on. This holds at any attempt (\<open>tries\<close>): \<open>w\<close> is the world in
  which that attempt sends its GET, and the world left behind is \<open>w\<close> with one more
  exchange and two more log lines; nothing is slept and nothing more is sent.
\<close>

theorem client_error_exits_without_retry:
  assumes "token_check w0 = (Inr (), w)"
    and "net w = Response status body # rs"
    and "400 \<le> status" and "status < 500"
  shows "on_exception max_tries factor tries (request_body u ps) w0 =
           (Inl (SystemExit 1),
            w\<lparr>net := rs,
              sent := sent w @
                [HttpGet u ps
                   ((''Authorization'', cfg_access_token (CONFIG w)) #
                    (case cfg_user_agent (CONFIG w) of None \<Rightarrow> [] | Some ua \<Rightarrow> [(''User-Agent'', ua)]))],
              logged := logged w @ [Info_GET u ps, Error_GET u ps status body]\<rparr>)"
proof -
  have "request_body u ps w0 = send_get u ps w"
    using assms(1) by (simp add: request_body_def bnd_def)
  also note send_get_error_status [OF assms(2,3)]
  finally show ?thesis
    by (rule on_exception_passes) simp
qed

theorem client_error_exits_without_retry_witness:
  "request (''https://api.hubapi.com/forms/v2/forms'', []) []
     (example_world 500 [Response 404 (JStr ''not found''), Response 200 (JList [])]) =
   (Inl (SystemExit 1),
    (example_world 500 [Response 200 (JList [])])
      \<lparr>ticks := 1,
       sent := [HttpGet (''https://api.hubapi.com/forms/v2/forms'', []) []
                  [(''Authorization'', JStr ''token-1'')]],
       logged := [Info_GET (''https://api.hubapi.com/forms/v2/forms'', []) [],
                  Error_GET (''https://api.hubapi.com/forms/v2/forms'', []) [] 404
                    (JStr ''not found'')]\<rparr>)"
proof -
  let ?w0 = "example_world 500 [Response 404 (JStr ''not found''), Response 200 (JList [])]"
  have tc: "token_check ?w0 = (Inr (), ?w0\<lparr>ticks := 1\<rparr>)"
    by (simp add: token_check_def io_defs example_world_def example_config_def)
  show ?thesis
    unfolding request_def
    using client_error_exits_without_retry
      [OF tc, of 404 "JStr ''not found''" "[Response 200 (JList [])]" 5 2 0
         "(''https://api.hubapi.com/forms/v2/forms'', [])" "[]"]
    by (simp add: example_world_def example_config_def)
qed

text \<open>The form the token endpoint is sent, read from \<^verbatim>\<open>CONFIG\<close>.\<close>

lemma refresh_token_sent:
  "sent (snd (refresh_token w)) =
     sent w @
       [HttpPost (BASE_URL @ ''/oauth/v1/token'', [])
          [(''grant_type'', JStr ''refresh_token''),
           (''redirect_uri'', cfg_redirect_uri (CONFIG w)),
           (''refresh_token'', cfg_refresh_token (CONFIG w)),
           (''client_id'', cfg_client_id (CONFIG w)),
           (''client_secret'', cfg_client_secret (CONFIG w))]]"
  by (simp add: refresh_token_def io_defs Let_def raise_for_status_def
        split: list.splits reply.splits sum.splits prod.splits json.splits)








text \<open>
  C1 at its own example. The first 503 answer to the GET already ends the call: the
  body of \<^verbatim>\<open>request\<close> reaches \<^verbatim>\<open>sys.exit(1)\<close> for every status from 400 up, so no
  exception of the class the decorator retries is raised, nothing is slept, and the
  200 answer is never read.
\<close>

theorem server_error_exits_without_retry:
  "request (''https://api.hubapi.com/forms/v2/forms'', []) []
     (example_world 500 [Response 503 JNull, Response 503 JNull, Response 200 (JList [])]) =
   (Inl (SystemExit 1),
    (example_world 500 [Response 503 JNull, Response 200 (JList [])])
      \<lparr>ticks := 1,
       sent := [HttpGet (''https://api.hubapi.com/forms/v2/forms'', []) []
                  [(''Authorization'', JStr ''token-1'')]],
       logged := [Info_GET (''https://api.hubapi.com/forms/v2/forms'', []) [],
                  Error_GET (''https://api.hubapi.com/forms/v2/forms'', []) [] 503 JNull]\<rparr>)"
  by (simp add: request_def on_exception.simps request_body_def token_check_def send_get_def
        io_defs example_world_def example_config_def)

text \<open>
  What the decorator does retry is a failure below HTTP: two of them and then a 200
  give the 200 response after waits of 2 and 4 seconds, and five of them in a row let
  the exception through after waits of 2, 4, 8 and 16 seconds.
\<close>

lemma connection_errors_are_retried:
  "request (''https://api.hubapi.com/forms/v2/forms'', []) []
     (example_world 500 [ConnectionError, ConnectionError, Response 200 (JList [])]) =
   (Inr (200, JList []),
    (example_world 500 [])
      \<lparr>ticks := 3,
       sent := replicate 3 (HttpGet (''https://api.hubapi.com/forms/v2/forms'', []) []
                  [(''Authorization'', JStr ''token-1'')]),
       slept := [2, 4],
       logged := replicate 3 (Info_GET (''https://api.hubapi.com/forms/v2/forms'', []) [])\<rparr>)"
  by (simp add: request_def on_exception.simps request_body_def token_check_def send_get_def
        io_defs example_world_def example_config_def sleep_def expo_def numeral_3_eq_3)

lemma connection_errors_exhaust:
  "request (''https://api.hubapi.com/forms/v2/forms'', []) []
     (example_world 500 (replicate 6 ConnectionError)) =
   (Inl (RequestException None),
    (example_world 500 [ConnectionError])
      \<lparr>ticks := 5,
       sent := replicate 5 (HttpGet (''https://api.hubapi.com/forms/v2/forms'', []) []
                  [(''Authorization'', JStr ''token-1'')]),
       slept := [2, 4, 8, 16],
       logged := replicate 5 (Info_GET (''https://api.hubapi.com/forms/v2/forms'', []) [])\<rparr>)"
  by (simp add: request_def on_exception.simps request_body_def token_check_def send_get_def
        io_defs example_world_def example_config_def sleep_def expo_def eval_nat_numeral)

section \<open>The streams\<close>

text \<open>
  \<^verbatim>\<open>singer.utils.update_state(state, entity, dtime)\<close> of the singer library: nothing
  for \<^verbatim>\<open>None\<close>; the value is stored when the entity has none, and it replaces the
  stored one only when \<^verbatim>\<open>dtime >= state[entity]\<close>.
\<close>

definition update_state :: "string \<Rightarrow> int option \<Rightarrow> unit io" where
  "update_state entity dtime w =
     (case dtime of
        None \<Rightarrow> (Inr (), w)
      | Some d \<Rightarrow>
          let s1 = (if map_of (STATE w) entity = None
                    then AList.update entity d (STATE w) else STATE w)
          in (case map_of s1 entity of
                None \<Rightarrow> (Inl (KeyError entity), w\<lparr>STATE := s1\<rparr>)
              | Some stored \<Rightarrow>
                  (Inr (), w\<lparr>STATE := (if d \<ge> stored then AList.update entity d s1 else s1)\<rparr>)))"

text \<open>
  \<^verbatim>\<open>transform(record, schema)\<close> lives in \<^verbatim>\<open>tap_hubspot/transform.py\<close>; the functions
  that call it take it as the argument \<open>tr\<close>.
\<close>

type_synonym transform = "json \<Rightarrow> schema \<Rightarrow> json"

definition get_custom_schema :: "string \<Rightarrow> json io" where
  "get_custom_schema entity_name =
     bnd (lift (get_url (entity_name @ ''_properties'') [])) (\<lambda>u.
     bnd (request u []) (\<lambda>resp.
     lift (parse_custom_schema entity_name (snd resp))))"

text \<open>
  \<open>Schema entity_name custom\<close> stands for the schema file of the entity, with the
  custom properties put in when there are any.
\<close>

definition load_schema :: "string \<Rightarrow> schema io" where
  "load_schema entity_name =
     (if entity_name \<in> set [''contacts'', ''companies'', ''deals'']
      then bnd (get_custom_schema entity_name) (\<lambda>custom_schema.
           ret (Schema entity_name (Some custom_schema)))
      else ret (Schema entity_name None))"

subsection \<open>What the generator leaves unchanged, and why the loops over it end\<close>

lemma gen_next_rel:
  assumes "plumbing R"
  shows "R w (snd (gen_next g w))"
proof (induction g w rule: gen_next.induct)
  case (1 g w)
  note unfold = gen_next.simps [of g w]
  have refl: "R w w"
    using plumbing_reflp [OF assms] by (simp add: reflpD)
  show ?case
  proof (cases "g_pc g")
    case Created
    with "1.IH"(1) refl show ?thesis
      by (simp add: unfold)
  next
    case Fetching
    obtain r w' where req: "request (g_url g) (g_params g) w = (r, w')"
      by (cases "request (g_url g) (g_params g) w")
    have step: "R w w'"
      using preservesD [OF preserves_request [OF assms], of w "g_url g" "g_params g"] req
      by simp
    show ?thesis
    proof (cases r)
      case (Inl e)
      with Fetching req step show ?thesis by (simp add: unfold)
    next
      case (Inr resp)
      have tr: "\<And>w''. R w' w'' \<Longrightarrow> R w w''"
        using step plumbing_transp [OF assms] by (blast dest: transpD)
      have refl': "R w' w'"
        using plumbing_reflp [OF assms] by (simp add: reflpD)
      show ?thesis
      proof (cases "g_path g \<noteq> []")
        case True
        show ?thesis
        proof (cases "pure_bnd (getitem (snd resp) (g_path g)) py_iter")
          case (Inl e)
          with Fetching req Inr True step show ?thesis by (simp add: unfold)
        next
          case rows: (Inr rows)
          from "1.IH"(2) [OF Fetching req [symmetric] Inr True rows]
          have "R w' (snd (gen_next (g\<lparr>g_pc := Rows rows (snd resp)\<rparr>) w'))" .
          with Fetching req Inr True rows tr show ?thesis by (simp add: unfold)
        qed
      next
        case False
        show ?thesis
        proof (cases "py_iter (snd resp)")
          case (Inl e)
          with Fetching req Inr False step show ?thesis by (simp add: unfold)
        next
          case rows: (Inr rows)
          from "1.IH"(3) [OF Fetching req [symmetric] Inr False rows]
          have "R w' (snd (gen_next (g\<lparr>g_pc := Last_rows rows\<rparr>) w'))" .
          with Fetching req Inr False rows tr show ?thesis by (simp add: unfold)
        qed
      qed
    qed
  next
    case (Rows rows data)
    show ?thesis
    proof (cases rows)
      case (Cons row rest)
      with Rows refl show ?thesis by (simp add: unfold)
    next
      case Nil
      show ?thesis
      proof (cases "dict_get data (g_more_key g)")
        case (Inl e)
        with Rows Nil refl show ?thesis by (simp add: unfold)
      next
        case flag: (Inr flag)
        show ?thesis
        proof (cases "truthy flag")
          case False
          with Rows Nil flag refl show ?thesis by (simp add: unfold)
        next
          case True
          show ?thesis
          proof (cases "copy_offsets data
                  (zip (as_list (g_offset_keys g)) (as_list (g_offset_targets g))) (g_params g)")
            case (Inl e)
            with Rows Nil flag True refl show ?thesis by (simp add: unfold)
          next
            case (Inr ps)
            from "1.IH"(4) [OF Rows Nil flag _ Inr] True
            have "R w (snd (gen_next (g\<lparr>g_params := ps, g_pc := Fetching\<rparr>) w))"
              by simp
            with Rows Nil flag True Inr show ?thesis by (simp add: unfold)
          qed
        qed
      qed
    qed
  next
    case (Last_rows rows)
    with refl show ?thesis by (cases rows) (simp_all add: unfold)
  qed
qed

lemma preserves_gen_next: "plumbing R \<Longrightarrow> preserves R (gen_next g)"
  by (rule preservesI) (rule gen_next_rel)

text \<open>The rows of the current page that the generator has still to yield.\<close>

definition gen_size :: "gen \<Rightarrow> nat" where
  "gen_size g =
     (case g_pc g of Rows rows data \<Rightarrow> length rows | Last_rows rows \<Rightarrow> length rows | _ \<Rightarrow> 0)"

lemma gen_next_decreases:
  "gen_next g w = (Inr (Some (row, g')), w') \<Longrightarrow>
   length (net w') < length (net w) \<or> (w' = w \<and> gen_size g' < gen_size g)"
proof (induction g w rule: gen_next.induct)
  case (1 g w)
  note unfold = gen_next.simps [of g w]
  show ?case
  proof (cases "g_pc g")
    case Created
    with "1.prems" "1.IH"(1) show ?thesis
      by (auto simp: unfold gen_size_def split: if_splits)
  next
    case Fetching
    obtain r w1 where req: "request (g_url g) (g_params g) w = (r, w1)"
      by (cases "request (g_url g) (g_params g) w")
    show ?thesis
    proof (cases r)
      case (Inl e)
      with Fetching req "1.prems" show ?thesis by (simp add: unfold)
    next
      case (Inr resp)
      from request_consumes req Inr have lt: "length (net w1) < length (net w)"
        by blast
      show ?thesis
      proof (cases "g_path g \<noteq> []")
        case True
        show ?thesis
        proof (cases "pure_bnd (getitem (snd resp) (g_path g)) py_iter")
          case (Inl e)
          with Fetching req Inr True "1.prems" show ?thesis by (simp add: unfold)
        next
          case rows: (Inr rows)
          from Fetching req Inr True rows "1.prems"
          have "gen_next (g\<lparr>g_pc := Rows rows (snd resp)\<rparr>) w1 = (Inr (Some (row, g')), w')"
            by (simp add: unfold)
          from "1.IH"(2) [OF Fetching req [symmetric] Inr True rows this] lt
          show ?thesis by auto
        qed
      next
        case False
        show ?thesis
        proof (cases "py_iter (snd resp)")
          case (Inl e)
          with Fetching req Inr False "1.prems" show ?thesis by (simp add: unfold)
        next
          case rows: (Inr rows)
          from Fetching req Inr False rows "1.prems"
          have "gen_next (g\<lparr>g_pc := Last_rows rows\<rparr>) w1 = (Inr (Some (row, g')), w')"
            by (simp add: unfold)
          from "1.IH"(3) [OF Fetching req [symmetric] Inr False rows this] lt
          show ?thesis by auto
        qed
      qed
    qed
  next
    case (Rows rows data)
    show ?thesis
    proof (cases rows)
      case (Cons r rest)
      with Rows "1.prems" show ?thesis by (auto simp: unfold gen_size_def)
    next
      case Nil
      show ?thesis
      proof (cases "dict_get data (g_more_key g)")
        case (Inl e)
        with Rows Nil "1.prems" show ?thesis by (simp add: unfold)
      next
        case flag: (Inr flag)
        show ?thesis
        proof (cases "truthy flag")
          case False
          with Rows Nil flag "1.prems" show ?thesis by (simp add: unfold)
        next
          case True
          show ?thesis
          proof (cases "copy_offsets data
                  (zip (as_list (g_offset_keys g)) (as_list (g_offset_targets g))) (g_params g)")
            case (Inl e)
            with Rows Nil flag True "1.prems" show ?thesis by (simp add: unfold)
          next
            case (Inr ps)
            from Rows Nil flag True Inr "1.prems"
            have nxt: "gen_next (g\<lparr>g_params := ps, g_pc := Fetching\<rparr>) w = (Inr (Some (row, g')), w')"
              by (simp add: unfold)
            from "1.IH"(4) [OF Rows Nil flag _ Inr nxt] True
            have "length (net w') < length (net w)"
              by (simp add: gen_size_def)
            then show ?thesis by simp
          qed
        qed
      qed
    qed
  next
    case (Last_rows rows)
    with "1.prems" show ?thesis
      by (cases rows) (auto simp: unfold gen_size_def)
  qed
qed

text \<open>
  Relations that the writers of messages and of watermarks cannot break: \<open>records\<close>
  for schema and record messages, \<open>marks\<close> for \<^verbatim>\<open>update_state\<close> and \<open>get_start\<close>,
  \<open>checkpoints\<close> for \<^verbatim>\<open>singer.write_state(STATE)\<close>.
\<close>

fun is_state :: "message \<Rightarrow> bool" where
  "is_state (STATE_MESSAGE s) = True"
| "is_state _ = False"

definition records :: "(world \<Rightarrow> world \<Rightarrow> bool) \<Rightarrow> bool" where
  "records R \<longleftrightarrow> (\<forall>w m. \<not> is_state m \<longrightarrow> R w (w\<lparr>out := out w @ [m]\<rparr>))"

definition marks :: "(world \<Rightarrow> world \<Rightarrow> bool) \<Rightarrow> bool" where
  "marks R \<longleftrightarrow>
     (\<forall>w k d. R w (snd (update_state k d w))) \<and> (\<forall>w k. R w (snd (get_start k w)))"

definition checkpoints :: "(world \<Rightarrow> world \<Rightarrow> bool) \<Rightarrow> bool" where
  "checkpoints R \<longleftrightarrow> (\<forall>w. R w (snd (write_state w)))"

lemma preserves_write_record: "records R \<Longrightarrow> preserves R (write_record stream r)"
  by (simp add: preserves_def write_record_def records_def)

lemma preserves_write_schema: "records R \<Longrightarrow> preserves R (write_schema stream sch kp)"
  by (simp add: preserves_def write_schema_def records_def)

lemma preserves_update_state: "marks R \<Longrightarrow> preserves R (update_state k d)"
  by (simp add: preserves_def marks_def)

lemma preserves_get_start: "marks R \<Longrightarrow> preserves R (get_start k)"
  by (simp add: preserves_def marks_def)

lemma preserves_write_state: "checkpoints R \<Longrightarrow> preserves R write_state"
  by (simp add: preserves_def checkpoints_def)

lemma preserves_get_custom_schema: "plumbing R \<Longrightarrow> preserves R (get_custom_schema e)"
  unfolding get_custom_schema_def
  by (intro preserves_bnd preserves_request preserves_plumbing)

lemma preserves_load_schema: "plumbing R \<Longrightarrow> preserves R (load_schema e)"
  unfolding load_schema_def
  by (intro preserves_bnd preserves_if preserves_get_custom_schema preserves_plumbing)

lemmas preserves_rules =
  preserves_bnd preserves_if preserves_option preserves_plumbing preserves_request
  preserves_gen_next preserves_load_schema preserves_write_record preserves_write_schema
  preserves_update_state preserves_get_start preserves_write_state

lemma records_net_le: "records net_le"
  by (simp add: records_def net_le_def)

lemma marks_net_le: "marks net_le"
  by (simp add: marks_def net_le_def update_state_def get_start_def Let_def
        split: option.splits)

lemma checkpoints_net_le: "checkpoints net_le"
  by (simp add: checkpoints_def net_le_def write_state_def)

text \<open>
  How a loop over the generator gets smaller: the row came from a new page, and the
  script is shorter, or it came from the page at hand, and the page is shorter.
\<close>

lemma loop_decreases:
  assumes "gen_next g w = (Inr (Some (row, g')), w1)" and "net_le w1 w2"
  shows "length (net w2) < length (net w) \<or>
         (length (net w2) = length (net w) \<and> gen_size g' < gen_size g) \<or>
         length (net w2) < length (net w)"
  using gen_next_decreases [OF assms(1)] assms(2) by (auto simp: net_le_def)

subsection \<open>Contacts\<close>

text \<open>The modification instant of a listed contact, \<^verbatim>\<open>None\<close> when it carries none.\<close>

definition row_modified_time :: "json \<Rightarrow> exn + int option" where
  "row_modified_time row =
     pure_bnd (getitem row ''properties'') (\<lambda>props.
     pure_bnd (contains props ''lastmodifieddate'') (\<lambda>has.
       if has
       then pure_bnd (getitem props ''lastmodifieddate'') (\<lambda>l.
            pure_bnd (getitem l ''value'') (\<lambda>v.
            pure_bnd (strptime v) (\<lambda>t. Inr (Some t))))
       else Inr None))"

text \<open>\<^verbatim>\<open>for vid, record in data.items()\<close>, lines 243 to 250.\<close>

fun contacts_records :: "transform \<Rightarrow> schema \<Rightarrow> (string \<times> json) list \<Rightarrow> unit io" where
  "contacts_records tr sch [] = ret ()"
| "contacts_records tr sch (item # items) =
     bnd (write_record ''contacts'' (tr (snd item) sch)) (\<lambda>_.
     bnd (lift (pure_bnd (getitem (tr (snd item) sch) ''properties'') (\<lambda>props.
                contains props ''lastmodifieddate''))) (\<lambda>has.
     bnd (if has
          then bnd (lift (pure_bnd (getitem (tr (snd item) sch) ''properties'') (\<lambda>props.
                          pure_bnd (getitem props ''lastmodifieddate'') (\<lambda>l.
                          pure_bnd (getitem l ''value'') dtime_of))))
                 (\<lambda>modified_time. update_state ''contacts'' modified_time)
          else ret ()) (\<lambda>_.
     contacts_records tr sch items)))"

text \<open>One turn of the loop of \<^verbatim>\<open>sync_contacts\<close>, lines 234 to 252; it returns \<^verbatim>\<open>vids\<close>.\<close>

definition contacts_row ::
  "transform \<Rightarrow> schema \<Rightarrow> int \<Rightarrow> json \<Rightarrow> json list \<Rightarrow> json list io" where
  "contacts_row tr sch last_sync row vids =
     bnd (lift (row_modified_time row)) (\<lambda>modified_time.
     bnd (if (case modified_time of None \<Rightarrow> True | Some t \<Rightarrow> t \<ge> last_sync)
          then bnd (lift (getitem row ''vid'')) (\<lambda>vid. ret (vids @ [vid]))
          else ret vids) (\<lambda>vids1.
     if length vids1 = 100
     then bnd (lift (get_url ''contacts_detail'' [])) (\<lambda>u.
          bnd (request u [(''vid'', JList vids1)]) (\<lambda>resp.
          bnd (lift (dict_items (snd resp))) (\<lambda>items.
          bnd (contacts_records tr sch items) (\<lambda>_.
          ret []))))
     else ret vids1))"

lemma preserves_contacts_records:
  assumes "plumbing R" and "records R" and "marks R"
  shows "preserves R (contacts_records tr sch items)"
proof (induction items)
  case Nil
  show ?case by (simp add: preserves_rules assms)
next
  case (Cons item items)
  show ?case
    unfolding contacts_records.simps
    by (intro preserves_rules assms Cons.IH)
qed

lemma preserves_contacts_row:
  assumes "plumbing R" and "records R" and "marks R"
  shows "preserves R (contacts_row tr sch last_sync row vids)"
  unfolding contacts_row_def
  by (intro preserves_rules preserves_contacts_records assms)

text \<open>
  \<^verbatim>\<open>for row in gen_request(...)\<close> of \<^verbatim>\<open>sync_contacts\<close>; the value is \<^verbatim>\<open>vids\<close> as the
  loop leaves it.
\<close>

function contacts_loop ::
  "transform \<Rightarrow> schema \<Rightarrow> int \<Rightarrow> gen \<Rightarrow> json list \<Rightarrow> json list io" where
  "contacts_loop tr sch last_sync g vids w =
     (case gen_next g w of
        (Inl e, w1) \<Rightarrow> (Inl e, w1)
      | (Inr None, w1) \<Rightarrow> (Inr vids, w1)
      | (Inr (Some (row, g')), w1) \<Rightarrow>
          (case contacts_row tr sch last_sync row vids w1 of
             (Inl e, w2) \<Rightarrow> (Inl e, w2)
           | (Inr vids', w2) \<Rightarrow> contacts_loop tr sch last_sync g' vids' w2))"
  by pat_completeness auto
termination
proof (relation "measures [\<lambda>(tr, sch, last_sync, g, vids, w). length (net w),
                           \<lambda>(tr, sch, last_sync, g, vids, w). gen_size g]", goal_cases)
  case 1
  show ?case by simp
next
  case (2 tr sch last_sync g vids w r w1 x y row g' r2 w2 vids')
  have "net_le w1 w2"
    using preservesD [OF preserves_contacts_row
        [OF plumbing_net_le records_net_le marks_net_le], of w1 tr sch last_sync row vids]
      2(5) [symmetric]
    by simp
  from loop_decreases [OF _ this, of g w row g'] 2 show ?case
    by auto
qed

declare contacts_loop.simps [simp del]

definition sync_contacts :: "transform \<Rightarrow> unit io" where
  "sync_contacts tr =
     bnd (get_start ''contacts'') (\<lambda>last_sync.
     bnd utcnow (\<lambda>now.
     let days_since_sync = (now - last_sync) div 86400000;
         endpoint = (if days_since_sync > 30 then ''contacts_all'' else ''contacts_recent'');
         offset_keys = (if days_since_sync > 30 then [''vid-offset'']
                        else [''vid-offset'', ''time-offset'']);
         offset_targets = (if days_since_sync > 30 then [''vidOffset'']
                           else [''vidOffset'', ''timeOffset''])
     in bnd (load_schema ''contacts'') (\<lambda>sch.
        bnd (write_schema ''contacts'' sch [''canonical-vid'']) (\<lambda>_.
        bnd (lift (get_url endpoint [])) (\<lambda>u.
        bnd (contacts_loop tr sch last_sync
               (gen_request u [(''showListMemberships'', JBool True), (''count'', JInt 100)]
                  ''contacts'' ''has-more'' (Names offset_keys) (Names offset_targets)) [])
          (\<lambda>vids.
        write_state))))))"

subsection \<open>Companies and deals\<close>

text \<open>
  The modification instant of a detail record: \<^verbatim>\<open>hs_lastmodifieddate\<close>, else
  \<^verbatim>\<open>createdate\<close>, else \<^verbatim>\<open>None\<close>.
\<close>

definition record_modified_time :: "json \<Rightarrow> exn + int option" where
  "record_modified_time record =
     pure_bnd (contains record ''hs_lastmodifieddate'') (\<lambda>has.
       if has
       then pure_bnd (getitem record ''hs_lastmodifieddate'') (\<lambda>l.
            pure_bnd (getitem l ''value'') (\<lambda>v.
            pure_bnd (strptime v) (\<lambda>t. Inr (Some t))))
       else pure_bnd (contains record ''createdate'') (\<lambda>created.
              if created
              then pure_bnd (getitem record ''createdate'') (\<lambda>l.
                   pure_bnd (getitem l ''value'') (\<lambda>v.
                   pure_bnd (strptime v) (\<lambda>t. Inr (Some t))))
              else Inr None))"

text \<open>
  The loops of \<^verbatim>\<open>sync_companies\<close> (lines 278 to 293) and \<^verbatim>\<open>sync_deals\<close> (lines 309
  to 324) are the same text up to the name of the stream, the detail endpoint with its
  placeholder, and the key of the identifier; \<open>detail_row\<close> is one turn, for the row
  with index \<open>i\<close> of \<^verbatim>\<open>enumerate\<close>.
\<close>

definition detail_fetch ::
  "string \<Rightarrow> string \<Rightarrow> string \<Rightarrow> string \<Rightarrow> transform \<Rightarrow> schema \<Rightarrow> int \<Rightarrow> json \<Rightarrow> unit io" where
  "detail_fetch stream detail placeholder id_key tr sch last_sync row =
     bnd (lift (getitem row id_key)) (\<lambda>ident.
     bnd (lift (get_url detail [(placeholder, ident)])) (\<lambda>u.
     bnd (request u []) (\<lambda>resp.
     bnd (lift (record_modified_time (tr (snd resp) sch))) (\<lambda>modified_time.
       if (case modified_time of None \<Rightarrow> True | Some t \<Rightarrow> t \<ge> last_sync)
       then bnd (write_record stream (tr (snd resp) sch)) (\<lambda>_.
            update_state stream modified_time)
       else ret ()))))"

definition detail_row ::
  "string \<Rightarrow> string \<Rightarrow> string \<Rightarrow> string \<Rightarrow> transform \<Rightarrow> schema \<Rightarrow> int \<Rightarrow> nat \<Rightarrow> json
   \<Rightarrow> unit io" where
  "detail_row stream detail placeholder id_key tr sch last_sync i row =
     bnd (detail_fetch stream detail placeholder id_key tr sch last_sync row) (\<lambda>_.
     if i mod 250 = 0 then write_state else ret ())"

lemma preserves_detail_fetch:
  assumes "plumbing R" and "records R" and "marks R"
  shows "preserves R (detail_fetch stream detail placeholder id_key tr sch last_sync row)"
  unfolding detail_fetch_def
  by (intro preserves_rules assms)

lemma preserves_detail_row:
  assumes "plumbing R" and "records R" and "marks R" and "checkpoints R"
  shows "preserves R (detail_row stream detail placeholder id_key tr sch last_sync i row)"
  unfolding detail_row_def
  by (intro preserves_rules preserves_detail_fetch assms)

text \<open>
  \<^verbatim>\<open>for i, row in enumerate(gen_request(...))\<close>; the value is the number of rows the
  loop has gone through.
\<close>

function detail_loop ::
  "string \<Rightarrow> string \<Rightarrow> string \<Rightarrow> string \<Rightarrow> transform \<Rightarrow> schema \<Rightarrow> int \<Rightarrow> gen \<Rightarrow> nat
   \<Rightarrow> nat io" where
  "detail_loop stream detail placeholder id_key tr sch last_sync g i w =
     (case gen_next g w of
        (Inl e, w1) \<Rightarrow> (Inl e, w1)
      | (Inr None, w1) \<Rightarrow> (Inr i, w1)
      | (Inr (Some (row, g')), w1) \<Rightarrow>
          (case detail_row stream detail placeholder id_key tr sch last_sync i row w1 of
             (Inl e, w2) \<Rightarrow> (Inl e, w2)
           | (Inr u, w2) \<Rightarrow>
               detail_loop stream detail placeholder id_key tr sch last_sync g' (Suc i) w2))"
  by pat_completeness auto
termination
proof (relation "measures
    [\<lambda>(stream, detail, placeholder, id_key, tr, sch, last_sync, g, i, w). length (net w),
     \<lambda>(stream, detail, placeholder, id_key, tr, sch, last_sync, g, i, w). gen_size g]",
    goal_cases)
  case 1
  show ?case by simp
next
  case (2 stream detail placeholder id_key tr sch last_sync g i w r w1 x y row g' r2 w2 u)
  have "net_le w1 w2"
    using preservesD [OF preserves_detail_row
        [OF plumbing_net_le records_net_le marks_net_le checkpoints_net_le],
        of w1 stream detail placeholder id_key tr sch last_sync i row]
      2(5) [symmetric]
    by simp
  from loop_decreases [OF _ this, of g w row g'] 2 show ?case
    by auto
qed

declare detail_loop.simps [simp del]

definition sync_companies :: "transform \<Rightarrow> unit io" where
  "sync_companies tr =
     bnd (get_start ''companies'') (\<lambda>last_sync.
     bnd utcnow (\<lambda>now.
     let days_since_sync = (now - last_sync) div 86400000;
         endpoint = (if days_since_sync > 30 then ''companies_all'' else ''companies_recent'');
         path = (if days_since_sync > 30 then ''companies'' else ''results'');
         more_key = (if days_since_sync > 30 then ''has-more'' else ''hasMore'');
         offset_keys = [''offset''];
         offset_targets = [''offset'']
     in bnd (load_schema ''companies'') (\<lambda>sch.
        bnd (write_schema ''companies'' sch [''companyId'']) (\<lambda>_.
        bnd (lift (get_url endpoint [])) (\<lambda>u.
        bnd (detail_loop ''companies'' ''companies_detail'' ''company_id'' ''companyId''
               tr sch last_sync
               (gen_request u [(''count'', JInt 250)] path more_key
                  (Names offset_keys) (Names offset_targets)) 0) (\<lambda>n.
        ret ()))))))"


subsection \<open>Campaigns\<close>






subsection \<open>Streams that write every row: the time windows and the contact lists\<close>











subsection \<open>Forms, workflows, keywords and owners\<close>







subsection \<open>The run\<close>


subsection \<open>What the loops and the streams leave unchanged\<close>






















section \<open>Watermarks over a run\<close>
























text \<open>
  A run of the companies stream: the watermark stands at 100; the listing has two
  companies, the first modified at instant 300 and the second at 200. Both records are
  written, and the watermark goes to 300 and stays there.
\<close>

definition example_transform :: transform where
  "example_transform record sch = record"

definition example_company :: "int \<Rightarrow> int \<Rightarrow> json" where
  "example_company ident t =
     JObj [(''companyId'', JInt ident), (''hs_lastmodifieddate'', JObj [(''value'', JTime t)])]"

definition companies_world :: world where
  "companies_world =
     (example_world 500
        [Response 200 (JList []),
         Response 200 (JObj [(''results'', JList [JObj [(''companyId'', JInt 1)],
                                                 JObj [(''companyId'', JInt 2)]]),
                             (''hasMore'', JBool False)]),
         Response 200 (example_company 1 300),
         Response 200 (example_company 2 200)])
       \<lparr>STATE := [(''companies'', 100)]\<rparr>"

lemma companies_run:
  "fst (sync_companies example_transform companies_world) = Inr ()"
  "STATE (snd (sync_companies example_transform companies_world)) = [(''companies'', 300)]"
  "out (snd (sync_companies example_transform companies_world)) =
     [SCHEMA ''companies'' (Schema ''companies'' (Some (JObj []))) [''companyId''],
      RECORD ''companies'' (example_company 1 300),
      STATE_MESSAGE [(''companies'', 300)],
      RECORD ''companies'' (example_company 2 200)]"
  by code_simp+


section \<open>Start positions in the state messages\<close>



































section \<open>The check of the offset names\<close>

text \<open>\<open>never e m\<close>: the computation \<open>m\<close> does not raise \<open>e\<close>.\<close>

definition never :: "exn \<Rightarrow> 'a io \<Rightarrow> bool" where
  "never e m \<longleftrightarrow> (\<forall>w. fst (m w) \<noteq> Inl e)"

lemma neverD: "never e m \<Longrightarrow> m w = (r, w') \<Longrightarrow> r \<noteq> Inl e"
  unfolding never_def by (metis fst_conv)

lemma never_bnd:
  assumes "never e m" and "\<And>x. never e (f x)"
  shows "never e (bnd m f)"
  unfolding never_def
proof
  fix w
  obtain r w' where mw: "m w = (r, w')"
    by (cases "m w")
  show "fst (bnd m f w) \<noteq> Inl e"
  proof (cases r)
    case (Inl e')
    with neverD [OF assms(1) mw] mw show ?thesis
      by (simp add: bnd_def)
  next
    case (Inr x)
    obtain r2 w2 where fx: "f x w' = (r2, w2)"
      by (cases "f x w'")
    with neverD [OF assms(2) fx] mw Inr show ?thesis
      by (simp add: bnd_def)
  qed
qed

lemma never_if: "never e m \<Longrightarrow> never e n \<Longrightarrow> never e (if b then m else n)"
  by simp

lemma never_option:
  "never e m \<Longrightarrow> (\<And>x. never e (f x)) \<Longrightarrow> never e (case v of None \<Rightarrow> m | Some x \<Rightarrow> f x)"
  by (cases v) simp_all

lemma never_simple:
  "never e (ret x)" "never e (logger l)" "never e utcnow" "never e get_config"
  "never e (set_config f)"
  by (simp_all add: never_def io_defs)

lemma never_lift: "r \<noteq> Inl e \<Longrightarrow> never e (lift r)"
  by (simp add: never_def lift_def)

lemma never_raise: "e' \<noteq> e \<Longrightarrow> never e (raise e')"
  by (simp add: never_def raise_def)

lemma never_exchange: "never (ValueError s) (exchange c)"
  by (simp add: never_def exchange_def split: list.splits reply.splits)

lemma getitem_no_ValueError: "getitem d k \<noteq> Inl (ValueError s)"
  by (cases d) (simp_all split: option.splits)

lemma as_int_no_ValueError: "as_int x \<noteq> Inl (ValueError s)"
  by (cases x) simp_all

lemma py_iter_no_ValueError: "py_iter x \<noteq> Inl (ValueError s)"
  by (cases x) simp_all

lemma dict_get_no_ValueError: "dict_get d k \<noteq> Inl (ValueError s)"
  by (cases d) (simp_all split: option.splits)

lemma copy_offsets_no_ValueError: "copy_offsets data kts ps \<noteq> Inl (ValueError s)"
  by (induction kts arbitrary: ps)
     (auto simp: pure_bnd_def getitem_no_ValueError split: sum.splits)

lemma never_refresh_token: "never (ValueError s) refresh_token"
  unfolding refresh_token_def Let_def
  by (intro never_bnd never_simple never_exchange never_lift getitem_no_ValueError
        as_int_no_ValueError)
     (simp add: raise_for_status_def)

lemma never_token_check: "never (ValueError s) token_check"
  unfolding token_check_def
  by (intro never_bnd never_option never_if never_simple never_refresh_token)

lemma never_send_get: "never (ValueError s) (send_get u ps)"
  unfolding send_get_def Let_def
  by (intro never_bnd never_if never_simple never_exchange never_raise) simp

lemma never_request_body: "never (ValueError s) (request_body u ps)"
  unfolding request_body_def
  by (intro never_bnd never_token_check never_send_get)

lemma on_exception_never:
  "never e target \<Longrightarrow> fst (on_exception max_tries factor tries target w) \<noteq> Inl e"
proof (induction max_tries factor tries target w rule: on_exception.induct)
  case (1 max_tries factor tries target w)
  note unfold = on_exception.simps [of max_tries factor tries target w]
  obtain r w' where tw: "target w = (r, w')"
    by (cases "target w")
  from "1.prems" tw have ne: "r \<noteq> Inl e"
    by (rule neverD)
  show ?case
  proof (cases r)
    case (Inr x)
    with tw show ?thesis by (simp add: unfold)
  next
    case (Inl e')
    show ?thesis
    proof (cases "is_RequestException e' \<and> \<not> giveup e' \<and> Suc tries < max_tries")
      case False
      with tw Inl ne show ?thesis by (auto simp: unfold)
    next
      case True
      from "1.IH" [OF tw [symmetric] Inl True "1.prems"] tw Inl True show ?thesis
        by (simp add: unfold)
    qed
  qed
qed

lemma never_request: "never (ValueError s) (request u ps)"
  unfolding never_def request_def
  by (intro allI on_exception_never never_request_body)

lemma gen_next_no_ValueError:
  "g_pc g \<noteq> Created \<or>
     length (as_list (g_offset_keys g)) = length (as_list (g_offset_targets g)) \<Longrightarrow>
   fst (gen_next g w) \<noteq> Inl (ValueError s)"
proof (induction g w rule: gen_next.induct)
  case (1 g w)
  note unfold = gen_next.simps [of g w]
  show ?case
  proof (cases "g_pc g")
    case Created
    with "1.prems" "1.IH"(1) show ?thesis
      by (simp add: unfold)
  next
    case Fetching
    obtain r w' where req: "request (g_url g) (g_params g) w = (r, w')"
      by (cases "request (g_url g) (g_params g) w")
    from never_request [of s "g_url g" "g_params g"] req have ne: "r \<noteq> Inl (ValueError s)"
      by (rule neverD)
    show ?thesis
    proof (cases r)
      case (Inl e)
      with Fetching req ne show ?thesis by (simp add: unfold)
    next
      case (Inr resp)
      show ?thesis
      proof (cases "g_path g \<noteq> []")
        case True
        show ?thesis
        proof (cases "pure_bnd (getitem (snd resp) (g_path g)) py_iter")
          case (Inl e)
          then have "e \<noteq> ValueError s"
            by (auto simp: pure_bnd_def getitem_no_ValueError py_iter_no_ValueError
                  split: sum.splits)
          with Fetching req Inr True Inl show ?thesis by (simp add: unfold)
        next
          case rows: (Inr rows)
          from "1.IH"(2) [OF Fetching req [symmetric] Inr True rows]
          have "fst (gen_next (g\<lparr>g_pc := Rows rows (snd resp)\<rparr>) w') \<noteq> Inl (ValueError s)"
            by simp
          with Fetching req Inr True rows show ?thesis by (simp add: unfold)
        qed
      next
        case False
        show ?thesis
        proof (cases "py_iter (snd resp)")
          case (Inl e)
          then have "e \<noteq> ValueError s"
            using py_iter_no_ValueError [of "snd resp" s] by auto
          with Fetching req Inr False Inl show ?thesis by (simp add: unfold)
        next
          case rows: (Inr rows)
          from "1.IH"(3) [OF Fetching req [symmetric] Inr False rows]
          have "fst (gen_next (g\<lparr>g_pc := Last_rows rows\<rparr>) w') \<noteq> Inl (ValueError s)"
            by simp
          with Fetching req Inr False rows show ?thesis by (simp add: unfold)
        qed
      qed
    qed
  next
    case (Rows rows data)
    show ?thesis
    proof (cases rows)
      case (Cons row rest)
      with Rows show ?thesis by (simp add: unfold)
    next
      case Nil
      show ?thesis
      proof (cases "dict_get data (g_more_key g)")
        case (Inl e)
        then have "e \<noteq> ValueError s"
          using dict_get_no_ValueError [of data "g_more_key g" s] by auto
        with Rows Nil Inl show ?thesis by (simp add: unfold)
      next
        case flag: (Inr flag)
        show ?thesis
        proof (cases "truthy flag")
          case False
          with Rows Nil flag show ?thesis by (simp add: unfold)
        next
          case True
          show ?thesis
          proof (cases "copy_offsets data
                  (zip (as_list (g_offset_keys g)) (as_list (g_offset_targets g))) (g_params g)")
            case (Inl e)
            then have "e \<noteq> ValueError s"
              using copy_offsets_no_ValueError
                [of data "zip (as_list (g_offset_keys g)) (as_list (g_offset_targets g))"
                    "g_params g" s]
              by auto
            with Rows Nil flag True Inl show ?thesis by (simp add: unfold)
          next
            case (Inr ps)
            from "1.IH"(4) [OF Rows Nil flag _ Inr] True
            have "fst (gen_next (g\<lparr>g_params := ps, g_pc := Fetching\<rparr>) w) \<noteq> Inl (ValueError s)"
              by simp
            with Rows Nil flag True Inr show ?thesis by (simp add: unfold)
          qed
        qed
      qed
    qed
  next
    case (Last_rows rows)
    then show ?thesis by (cases rows) (simp_all add: unfold)
  qed
qed


text \<open>The record of the exchanges started never gets shorter.\<close>

definition sent_le :: "world \<Rightarrow> world \<Rightarrow> bool" where
  "sent_le w w' \<longleftrightarrow> length (sent w) \<le> length (sent w')"

lemma plumbing_sent_le: "plumbing sent_le"
  by (simp add: plumbing_def reflp_def transp_def sent_le_def)

lemma send_get_sends: "length (sent (snd (send_get u ps w))) = Suc (length (sent w))"
  by (simp add: send_get_def io_defs Let_def split: list.splits reply.splits)

lemma token_check_cases:
  "token_check w = (Inr (), w\<lparr>ticks := Suc (ticks w)\<rparr>) \<or>
   length (sent (snd (token_check w))) = Suc (length (sent w))"
proof (cases "cfg_token_expires (CONFIG w)")
  case None
  then have "token_check w = refresh_token w"
    by (simp add: token_check_def bnd_def get_config_def)
  then show ?thesis
    by (simp add: refresh_token_sent)
next
  case (Some expires)
  show ?thesis
  proof (cases "expires < clock w (ticks w)")
    case True
    with Some have "token_check w = refresh_token (w\<lparr>ticks := Suc (ticks w)\<rparr>)"
      by (simp add: token_check_def bnd_def get_config_def utcnow_def)
    then show ?thesis
      by (simp add: refresh_token_sent)
  next
    case False
    with Some show ?thesis
      by (simp add: token_check_def io_defs)
  qed
qed

lemma request_body_sends: "length (sent w) < length (sent (snd (request_body u ps w)))"
proof (cases "token_check w")
  case (Pair r w1)
  from token_check_cases [of w] show ?thesis
  proof
    assume "token_check w = (Inr (), w\<lparr>ticks := Suc (ticks w)\<rparr>)"
    then show ?thesis
      using send_get_sends [of u ps "w\<lparr>ticks := Suc (ticks w)\<rparr>"]
      by (simp add: request_body_def bnd_def)
  next
    assume "length (sent (snd (token_check w))) = Suc (length (sent w))"
    with Pair have lt: "length (sent w1) = Suc (length (sent w))"
      by simp
    show ?thesis
    proof (cases r)
      case (Inl e)
      with Pair lt show ?thesis
        by (simp add: request_body_def bnd_def)
    next
      case (Inr x)
      with Pair lt send_get_sends [of u ps w1] show ?thesis
        by (simp add: request_body_def bnd_def)
    qed
  qed
qed

lemma request_sends: "length (sent w) < length (sent (snd (request u ps w)))"
proof -
  note unfold = on_exception.simps [of 5 2 0 "request_body u ps" w]
  obtain r w1 where body: "request_body u ps w = (r, w1)"
    by (cases "request_body u ps w")
  have lt: "length (sent w) < length (sent w1)"
    using request_body_sends [of w u ps] body by simp
  show ?thesis
  proof (cases r)
    case (Inr x)
    with body lt show ?thesis by (simp add: request_def unfold)
  next
    case (Inl e)
    have "sent_le (sleep (expo 2 0) w1)
            (snd (on_exception 5 2 (Suc 0) (request_body u ps) (sleep (expo 2 0) w1)))"
      by (rule on_exception_rel [OF plumbing_sent_le preserves_request_body [OF plumbing_sent_le]])
    then have "length (sent w1) \<le>
        length (sent (snd (on_exception 5 2 (Suc 0) (request_body u ps) (sleep (expo 2 0) w1))))"
      by (simp add: sent_le_def sleep_def)
    with body Inl lt show ?thesis
      by (simp add: request_def unfold)
  qed
qed

lemma gen_next_sends:
  assumes "g_pc g = Created"
    and "length (as_list (g_offset_keys g)) = length (as_list (g_offset_targets g))"
  shows "length (sent w) < length (sent (snd (gen_next g w)))"
proof -
  let ?g = "g\<lparr>g_pc := Fetching\<rparr>"
  note unfold = gen_next.simps [of ?g w]
  have start: "gen_next g w = gen_next ?g w"
    using assms by (subst gen_next.simps) simp
  obtain r w1 where req: "request (g_url g) (g_params g) w = (r, w1)"
    by (cases "request (g_url g) (g_params g) w")
  have lt: "length (sent w) < length (sent w1)"
    using request_sends [of w "g_url g" "g_params g"] req by simp
  have le: "\<And>g'. length (sent w1) \<le> length (sent (snd (gen_next g' w1)))"
    using gen_next_rel [OF plumbing_sent_le] by (simp add: sent_le_def)
  have "length (sent w) < length (sent (snd (gen_next ?g w)))"
  proof (cases r)
    case (Inl e)
    with req lt show ?thesis by (simp add: unfold)
  next
    case (Inr resp)
    with req lt le [of "g\<lparr>g_pc := Rows rows (snd resp)\<rparr>" for rows]
      le [of "g\<lparr>g_pc := Last_rows rows\<rparr>" for rows]
    show ?thesis
      by (auto simp: unfold less_le_trans split: sum.splits)
  qed
  with start show ?thesis by simp
qed

text \<open>
  C6. The first time the consumer asks the generator for a row, the two lists of
  offset names are compared before anything else. If their lengths differ, the
  \<^verbatim>\<open>ValueError\<close> is raised in the world as it was: nothing was sent. If they agree,
  that error is not raised, and the generator goes on to \<^verbatim>\<open>request(url, params)\<close>, which
  starts at least one HTTP exchange.
\<close>

theorem offset_names_checked_before_any_request:
  "(length (as_list offset_keys) \<noteq> length (as_list offset_targets) \<longrightarrow>
      gen_next (gen_request u ps path more_key offset_keys offset_targets) w =
        (Inl (ValueError ''Number of offset_keys must match number of offset_targets''), w)) \<and>
   (length (as_list offset_keys) = length (as_list offset_targets) \<longrightarrow>
      fst (gen_next (gen_request u ps path more_key offset_keys offset_targets) w) \<noteq>
        Inl (ValueError ''Number of offset_keys must match number of offset_targets'') \<and>
      length (sent w) <
        length (sent (snd (gen_next (gen_request u ps path more_key offset_keys offset_targets) w))))"
proof (intro conjI impI)
  assume "length (as_list offset_keys) \<noteq> length (as_list offset_targets)"
  then show "gen_next (gen_request u ps path more_key offset_keys offset_targets) w =
        (Inl (ValueError ''Number of offset_keys must match number of offset_targets''), w)"
    by (subst gen_next.simps) (simp add: gen_request_def)
next
  assume eq: "length (as_list offset_keys) = length (as_list offset_targets)"
  then show "fst (gen_next (gen_request u ps path more_key offset_keys offset_targets) w) \<noteq>
        Inl (ValueError ''Number of offset_keys must match number of offset_targets'')"
    by (intro gen_next_no_ValueError) (simp add: gen_request_def)
  from eq show "length (sent w) <
        length (sent (snd (gen_next (gen_request u ps path more_key offset_keys offset_targets) w)))"
    by (intro gen_next_sends) (simp_all add: gen_request_def)
qed

theorem offset_names_checked_before_any_request_witness:
  "gen_next (gen_request (''https://api.hubapi.com/contacts/v1/lists'', []) [(''count'', JInt 250)]
       ''lists'' ''has-more'' (Names [''vid-offset'', ''time-offset'']) (Names [''vidOffset'']))
     (example_world 500 [Response 200 (JObj [(''lists'', JList [])])]) =
     (Inl (ValueError ''Number of offset_keys must match number of offset_targets''),
      example_world 500 [Response 200 (JObj [(''lists'', JList [])])]) \<and>
   fst (gen_next (gen_request (''https://api.hubapi.com/contacts/v1/lists'', [])
       [(''count'', JInt 250)] ''lists'' ''has-more'' (Name ''offset'') (Name ''offset''))
     (example_world 500 [Response 200 (JObj [(''lists'', JList [])])])) \<noteq>
     Inl (ValueError ''Number of offset_keys must match number of offset_targets'') \<and>
   length (sent (example_world 500 [Response 200 (JObj [(''lists'', JList [])])])) <
     length (sent (snd (gen_next (gen_request (''https://api.hubapi.com/contacts/v1/lists'', [])
       [(''count'', JInt 250)] ''lists'' ''has-more'' (Name ''offset'') (Name ''offset''))
     (example_world 500 [Response 200 (JObj [(''lists'', JList [])])]))))"
  using offset_names_checked_before_any_request
      [of "Names [''vid-offset'', ''time-offset'']" "Names [''vidOffset'']"
          "(''https://api.hubapi.com/contacts/v1/lists'', [])" "[(''count'', JInt 250)]"
          "''lists''" "''has-more''" "example_world 500 [Response 200 (JObj [(''lists'', JList [])])]"]
    offset_names_checked_before_any_request
      [of "Name ''offset''" "Name ''offset''"
          "(''https://api.hubapi.com/contacts/v1/lists'', [])" "[(''count'', JInt 250)]"
          "''lists''" "''has-more''" "example_world 500 [Response 200 (JObj [(''lists'', JList [])])]"]
  by simp

section \<open>The time windows of the chunked streams\<close>


















subsection \<open>The watermark a chunked stream ends with\<close>






















section \<open>When state messages are written\<close>
















subsection \<open>Runs of the streams on concrete answers\<close>

text \<open>What a run shows: its result, the exchanges, the messages, the watermarks, and
  the replies left unread.\<close>

definition observed ::
  "(exn + 'a) \<times> world \<Rightarrow>
   (exn + 'a) \<times> http_call list \<times> message list \<times> (string \<times> int) list \<times> reply list" where
  "observed r = (fst r, sent (snd r), out (snd r), STATE (snd r), net (snd r))"

lemma observedD:
  assumes "observed r = (a, s, ms, st, rs)"
  shows "fst r = a" and "sent (snd r) = s" and "out (snd r) = ms" and "STATE (snd r) = st"
    and "net (snd r) = rs"
  using assms by (simp_all add: observed_def)

text \<open>
  Contacts: the listing gives 250 contacts in pages of 100, 100 and 50, none with a
  modification date, so all of them are candidates; the detail endpoint answers with an
  empty object.
\<close>

definition listed_contact :: "nat \<Rightarrow> json" where
  "listed_contact i = JObj [(''vid'', JInt (int i)), (''properties'', JObj [])]"

definition contacts_page :: "nat \<Rightarrow> nat \<Rightarrow> bool \<Rightarrow> json" where
  "contacts_page first n has_more =
     JObj [(''contacts'', JList (map listed_contact [first..<first + n])),
           (''has-more'', JBool has_more),
           (''vid-offset'', JInt (int (first + n))),
           (''time-offset'', JInt 0)]"

definition contacts_world :: world where
  "contacts_world =
     example_world 500
       [Response 200 (JList []),
        Response 200 (contacts_page 1 100 True),
        Response 200 (JObj []),
        Response 200 (contacts_page 101 100 True),
        Response 200 (JObj []),
        Response 200 (contacts_page 201 50 False),
        Response 200 (JObj [])]"

lemma contacts_run:
  "observed (sync_contacts example_transform contacts_world) =
     (Inr (),
      [HttpGet (''https://api.hubapi.com/properties/v1/contacts/properties'', []) []
         [(''Authorization'', JStr ''token-1'')],
       HttpGet (''https://api.hubapi.com/contacts/v1/lists/recently_updated/contacts/recent'', [])
         [(''showListMemberships'', JBool True), (''count'', JInt 100)]
         [(''Authorization'', JStr ''token-1'')],
       HttpGet (''https://api.hubapi.com/contacts/v1/contact/vids/batch/'', [])
         [(''vid'', JList (map (\<lambda>i. JInt (int i)) [1..<101]))]
         [(''Authorization'', JStr ''token-1'')],
       HttpGet (''https://api.hubapi.com/contacts/v1/lists/recently_updated/contacts/recent'', [])
         [(''showListMemberships'', JBool True), (''count'', JInt 100),
          (''vidOffset'', JInt 101), (''timeOffset'', JInt 0)]
         [(''Authorization'', JStr ''token-1'')],
       HttpGet (''https://api.hubapi.com/contacts/v1/contact/vids/batch/'', [])
         [(''vid'', JList (map (\<lambda>i. JInt (int i)) [101..<201]))]
         [(''Authorization'', JStr ''token-1'')],
       HttpGet (''https://api.hubapi.com/contacts/v1/lists/recently_updated/contacts/recent'', [])
         [(''showListMemberships'', JBool True), (''count'', JInt 100),
          (''vidOffset'', JInt 201), (''timeOffset'', JInt 0)]
         [(''Authorization'', JStr ''token-1'')]],
      [SCHEMA ''contacts'' (Schema ''contacts'' (Some (JObj []))) [''canonical-vid''],
       STATE_MESSAGE [(''contacts'', 0)]],
      [(''contacts'', 0)],
      [Response 200 (JObj [])])"
  by code_simp
















text \<open>The vids of a call to the detail endpoint of the contacts.\<close>

fun detail_vids :: "http_call \<Rightarrow> json list option" where
  "detail_vids (HttpGet u ps hs) =
     (if map_of endpoints ''contacts_detail'' = Some (drop (length BASE_URL) (fst u))
      then (case map_of ps ''vid'' of Some (JList vids) \<Rightarrow> Some vids | _ \<Rightarrow> None)
      else None)"
| "detail_vids (HttpPost u ps) = None"

lemma contacts_run_details:
  "List.map_filter detail_vids (sent (snd (sync_contacts example_transform contacts_world))) =
     [map (\<lambda>i. JInt (int i)) [1..<101], map (\<lambda>i. JInt (int i)) [101..<201]]"
  unfolding observedD(2) [OF contacts_run]
  by (simp add: List.map_filter_simps endpoints_def BASE_URL_def del: upt_rec_numeral)



text \<open>
  C2 at its own example. With 250 candidates the loop of \<^verbatim>\<open>sync_contacts\<close> asks the
  detail endpoint twice, for the vids 1 to 100 and 101 to 200: a batch is fetched only
  inside the loop, when \<^verbatim>\<open>len(vids) == 100\<close>, and nothing after the loop fetches the 50
  vids still in \<^verbatim>\<open>vids\<close>. The sync returns normally, and the answer prepared for a third
  detail call is left unread.
\<close>

theorem contacts_last_batch_is_dropped:
  "fst (sync_contacts example_transform contacts_world) = Inr () \<and>
   List.map_filter detail_vids (sent (snd (sync_contacts example_transform contacts_world))) =
     [map (\<lambda>i. JInt (int i)) [1..<101], map (\<lambda>i. JInt (int i)) [101..<201]] \<and>
   net (snd (sync_contacts example_transform contacts_world)) = [Response 200 (JObj [])]"
  using observedD(1,5) [OF contacts_run] contacts_run_details by (intro conjI)

end
